theory Spec2Isabelle
  imports Main "HOL-Library.Word" "HOL-Library.Sublist" "HOL-Library.Multiset"
begin

section \<open>The single-slot channel \<open>send_one_replaceable_object_t\<close>\<close>

text \<open>
  The class has two members: the constant flag \<open>sync\<close> and the atomic pointer
  \<open>a_ptr\<close>. The pointer either is \<open>NULL\<close> or owns one heap copy of a value, so it is an
  \<open>option\<close>. The atomic operations keep their default sequentially consistent ordering,
  so every \<open>load\<close> and \<open>exchange\<close> is one indivisible step on the shared cell.
\<close>

record 'a chan =
  sync :: bool
  a_ptr :: "'a option"

text \<open>The constructor: \<open>sync(_sync), a_ptr(NULL)\<close>.\<close>

definition new_chan :: "bool \<Rightarrow> 'a chan" where
  "new_chan s = \<lparr>sync = s, a_ptr = None\<rparr>"

text \<open>\<open>a_ptr.load()\<close> and \<open>a_ptr.exchange(p)\<close>: the latter returns the old pointer.\<close>

definition load :: "'a chan \<Rightarrow> 'a option" where
  "load c = a_ptr c"

definition exchange :: "'a option \<Rightarrow> 'a chan \<Rightarrow> 'a option \<times> 'a chan" where
  "exchange p c = (a_ptr c, c\<lparr>a_ptr := p\<rparr>)"

text \<open>
  \<open>is_object_present\<close> is a non-const member function; it returns the answer together
  with the channel it leaves behind.
\<close>

definition is_object_present :: "'a chan \<Rightarrow> bool \<times> 'a chan" where
  "is_object_present c = (load c \<noteq> None, c)"

subsection \<open>The two threads\<close>

text \<open>
  \<open>send\<close> and \<open>receive\<close> are cut at their accesses to \<open>a_ptr\<close>. A producer that has
  entered \<open>send(v)\<close> owns \<open>new_ptr\<close> with a copy of \<open>v\<close> and is either about to evaluate
  the loop condition \<open>a_ptr.load()\<close> (\<open>SendWait\<close>) or about to run
  \<open>a_ptr.exchange(new_ptr)\<close> (\<open>SendXchg\<close>). A consumer inside \<open>receive()\<close> is either
  about to evaluate \<open>!a_ptr.load()\<close> (\<open>RecvLoad\<close>) or about to run
  \<open>a_ptr.exchange(NULL)\<close> (\<open>RecvXchg\<close>).
\<close>

datatype 'a send_pc = SendIdle | SendWait 'a | SendXchg 'a

datatype recv_pc = RecvIdle | RecvLoad | RecvXchg

text \<open>
  The system state: the channel, the control point of the one thread that sends and of
  the one thread that receives, and three histories that the code does not store: the arguments passed to \<open>send\<close>, the values returned by
  \<open>receive\<close>, and the values destroyed by \<open>old_ptr\<close> at the end of \<open>send\<close>.
\<close>

record 'a sys =
  chan :: "'a chan"
  prod :: "'a send_pc"
  cons :: recv_pc
  sent :: "'a list"
  received :: "'a list"
  dropped :: "'a list"

definition init :: "bool \<Rightarrow> 'a sys" where
  "init s = \<lparr>chan = new_chan s, prod = SendIdle, cons = RecvIdle,
             sent = [], received = [], dropped = []\<rparr>"

fun opt_list :: "'a option \<Rightarrow> 'a list" where
  "opt_list None = []"
| "opt_list (Some x) = [x]"

text \<open>
  Entering \<open>send(v)\<close> when the allocation and the copy have succeeded: \<open>new_ptr\<close>
  holds the copy, and the branch on \<open>sync\<close> is taken.
\<close>

definition send_call :: "'a \<Rightarrow> 'a sys \<Rightarrow> 'a sys" where
  "send_call v s =
     s\<lparr>prod := (if sync (chan s) then SendWait v else SendXchg v),
       sent := sent s @ [v]\<rparr>"

text \<open>
  The first two statements of \<open>send\<close>, \<open>T *new_ptr = new T\<close> and
  \<open>*new_ptr = _obj\<close>, run before any access to \<open>a_ptr\<close>. Whether they succeed is
  decided by the heap and by the constructor and the copy assignment of \<open>T\<close>, not by
  the channel, so it is an argument of the call. \<open>send\<close> has no handler and is not
  \<open>noexcept\<close>: when one of the two statements throws, the call leaves by that
  exception, the channel being as it was.
\<close>

datatype heap_outcome = HeapOk | NewThrows | AssignThrows

datatype send_error = BadAlloc | CopyFailed

datatype 'a send_entry = Threw send_error "'a chan" | Entered "'a sys"

definition send_begin :: "heap_outcome \<Rightarrow> 'a \<Rightarrow> 'a sys \<Rightarrow> 'a send_entry" where
  "send_begin ho v s =
     (case ho of
        NewThrows \<Rightarrow> Threw BadAlloc (chan s)
      | AssignThrows \<Rightarrow> Threw CopyFailed (chan s)
      | HeapOk \<Rightarrow> Entered (send_call v s))"

text \<open>
  One shared-memory step of \<open>send\<close>: an iteration of the polling loop (the sleep leaves
  the state as it is), or the exchange, after which \<open>old_ptr\<close> deletes what was stored.
\<close>

definition send_step :: "'a sys \<Rightarrow> 'a sys" where
  "send_step s =
     (case prod s of
        SendIdle \<Rightarrow> s
      | SendWait v \<Rightarrow> (if load (chan s) \<noteq> None then s else s\<lparr>prod := SendXchg v\<rparr>)
      | SendXchg v \<Rightarrow>
          (case exchange (Some v) (chan s) of
             (old_ptr, c') \<Rightarrow>
               s\<lparr>chan := c', prod := SendIdle, dropped := dropped s @ opt_list old_ptr\<rparr>))"

text \<open>Entering \<open>receive()\<close>: \<open>ptr\<close> is empty and the inner loop is next.\<close>

definition recv_call :: "'a sys \<Rightarrow> 'a sys" where
  "recv_call s = s\<lparr>cons := RecvLoad\<rparr>"

text \<open>
  One shared-memory step of \<open>receive\<close>: an iteration of the inner polling loop, or the
  exchange followed by the test \<open>while (!ptr)\<close> and, when \<open>ptr\<close> is set, the return of
  the copy \<open>*ptr\<close>.
\<close>

definition recv_step :: "'a sys \<Rightarrow> 'a sys" where
  "recv_step s =
     (case cons s of
        RecvIdle \<Rightarrow> s
      | RecvLoad \<Rightarrow> (if load (chan s) = None then s else s\<lparr>cons := RecvXchg\<rparr>)
      | RecvXchg \<Rightarrow>
          (case exchange None (chan s) of
             (None, c') \<Rightarrow> s\<lparr>chan := c', cons := RecvLoad\<rparr>
           | (Some obj, c') \<Rightarrow>
               s\<lparr>chan := c', cons := RecvIdle, received := received s @ [obj]\<rparr>))"

text \<open>
  A schedule is a list of events. A thread can enter an operation only when it is
  idle and can take a step only when it is inside one; an event that is not enabled
  makes the schedule impossible (\<open>None\<close>). \<open>IsPresent\<close> is a call of
  \<open>is_object_present\<close> by whichever thread is free to make it. \<open>SendCall v\<close> is a
  call of \<open>send(v)\<close> that gets past its first two statements
  (\<open>send_begin HeapOk\<close>); a call that throws there never reaches \<open>a_ptr\<close> and is
  no event of a schedule.
\<close>

datatype 'a event = SendCall 'a | SendStep | RecvCall | RecvStep | IsPresent

fun step :: "'a event \<Rightarrow> 'a sys \<Rightarrow> 'a sys option" where
  "step (SendCall v) s = (if prod s = SendIdle then Some (send_call v s) else None)"
| "step SendStep s = (if prod s = SendIdle then None else Some (send_step s))"
| "step RecvCall s = (if cons s = RecvIdle then Some (recv_call s) else None)"
| "step RecvStep s = (if cons s = RecvIdle then None else Some (recv_step s))"
| "step IsPresent s = Some (s\<lparr>chan := snd (is_object_present (chan s))\<rparr>)"

fun run :: "'a event list \<Rightarrow> 'a sys \<Rightarrow> 'a sys option" where
  "run [] s = Some s"
| "run (e # es) s = (case step e s of None \<Rightarrow> None | Some s' \<Rightarrow> run es s')"

text \<open>The values that are stored or about to be stored and have not been taken.\<close>

fun pending :: "'a send_pc \<Rightarrow> 'a list" where
  "pending SendIdle = []"
| "pending (SendWait v) = [v]"
| "pending (SendXchg v) = [v]"

definition in_flight :: "'a sys \<Rightarrow> 'a list" where
  "in_flight s = opt_list (a_ptr (chan s)) @ pending (prod s)"

section \<open>Reading the class names: \<open>objects_names_from_file\<close>\<close>

text \<open>
  The file system is a partial map from paths to contents; a path outside its domain
  is a file that \<open>std::ifstream\<close> cannot open. The stream delivers the bytes as they
  are stored.
\<close>

type_synonym filesystem = "string \<rightharpoonup> string"

definition newline :: char where
  "newline = CHR 0x0A"

text \<open>
  \<open>getline(file, line)\<close> on the rest of the stream: it fails when no character is
  left; otherwise it extracts up to the next newline or the end of the stream and
  discards the newline.
\<close>

definition getline :: "string \<Rightarrow> (string \<times> string) option" where
  "getline inp =
     (if inp = [] then None
      else Some (takeWhile (\<lambda>c. c \<noteq> newline) inp,
                 drop 1 (dropWhile (\<lambda>c. c \<noteq> newline) inp)))"

text \<open>The loop \<open>for (std::string line; getline(file, line);) file_lines.push_back(line)\<close>.\<close>

function read_lines :: "string \<Rightarrow> string list \<Rightarrow> string list" where
  "read_lines inp file_lines =
     (case getline inp of
        None \<Rightarrow> file_lines
      | Some (line, rest) \<Rightarrow> read_lines rest (file_lines @ [line]))"
  by pat_completeness auto
termination
proof (relation "measure (\<lambda>(inp, file_lines). length inp)")
  show "wf (measure (\<lambda>(inp, file_lines). length inp))" by simp
next
  fix inp :: string and file_lines :: "string list" and x2 x y
  assume g: "getline inp = Some x2" and x: "(x, y) = x2"
  from g have ne: "inp \<noteq> []" by (auto simp: getline_def split: if_splits)
  from g x have y: "y = drop 1 (dropWhile (\<lambda>c. c \<noteq> newline) inp)"
    by (auto simp: getline_def split: if_splits)
  have "length y < length inp"
  proof (cases "dropWhile (\<lambda>c. c \<noteq> newline) inp = []")
    case True
    with ne y show ?thesis by simp
  next
    case False
    define d where "d = dropWhile (\<lambda>c. c \<noteq> newline) inp"
    have le: "length d \<le> length inp"
      unfolding d_def by (rule length_dropWhile_le)
    from False have pos: "0 < length d" by (simp add: d_def)
    from y have "length y = length d - 1" by (simp add: d_def)
    with le pos show ?thesis by arith
  qed
  then show "((y, file_lines @ [x]), (inp, file_lines)) \<in> measure (\<lambda>(inp, file_lines). length inp)"
    by simp
qed

declare read_lines.simps [simp del]

text \<open>
  The function returns the vector; the second component is what it writes to
  \<open>std::cout\<close>.
\<close>

definition objects_names_from_file :: "filesystem \<Rightarrow> string \<Rightarrow> string list \<times> string" where
  "objects_names_from_file fs filename =
     (case fs filename of
        None \<Rightarrow> ([], [])
      | Some contents \<Rightarrow> (read_lines contents [], ''object names loaded '' @ [newline]))"

section \<open>Printing and drawing detections\<close>

text \<open>
  Modelled from the spec: the struct \<open>bbox_t\<close> is declared in the header
  \<open>yolo_v2_class.hpp\<close> of the wrapped inference engine, which is not part of the
  sources. The spec's glossary describes a bounding box as a rectangle plus a class
  identifier and a confidence score; the record has the fields that \<open>draw_boxes\<close> and
  \<open>show_console_result\<close> read. The integer fields are \<open>unsigned int\<close>; the floating
  point fields have the abstract type \<open>'f\<close>.
\<close>

record 'f bbox_t =
  x :: "32 word"
  y :: "32 word"
  w :: "32 word"
  h :: "32 word"
  prob :: 'f
  obj_id :: "32 word"
  track_id :: "32 word"
  x_3d :: 'f
  y_3d :: 'f
  z_3d :: 'f

text \<open>
  \<open>std::vector::operator[]\<close> does not check its index; an index outside the vector is
  an error of the model.
\<close>

datatype access_error = OutOfBounds

definition vec_at :: "'a list \<Rightarrow> nat \<Rightarrow> access_error + 'a" where
  "vec_at xs i = (if i < length xs then Inr (xs ! i) else Inl OutOfBounds)"

text \<open>What is written to \<open>std::cout\<close>, item by item.\<close>

datatype 'f out = Str string | UInt "32 word" | Flt 'f | SetPrecision nat | Endl

text \<open>
  One iteration of the loop of \<open>show_console_result\<close>. The parameter \<open>frame_id\<close>
  of the function is never read and is left out.
\<close>

definition show_one :: "string list \<Rightarrow> 'f bbox_t \<Rightarrow> access_error + 'f out list" where
  "show_one obj_names i =
     (case (if length obj_names > unat (obj_id i)
            then (case vec_at obj_names (unat (obj_id i)) of
                    Inl e \<Rightarrow> Inl e
                  | Inr name \<Rightarrow> Inr [Str name, Str '' - ''])
            else Inr []) of
        Inl e \<Rightarrow> Inl e
      | Inr pre \<Rightarrow>
          Inr (pre @
               [Str ''obj_id = '', UInt (obj_id i), Str '',  x = '', UInt (x i),
                Str '', y = '', UInt (y i), Str '', w = '', UInt (w i),
                Str '', h = '', UInt (h i), SetPrecision 3, Str '', prob = '',
                Flt (prob i), Endl]))"

fun show_loop :: "string list \<Rightarrow> 'f bbox_t list \<Rightarrow> 'f out list \<Rightarrow> access_error + 'f out list" where
  "show_loop obj_names [] acc = Inr acc"
| "show_loop obj_names (i # rest) acc =
     (case show_one obj_names i of
        Inl e \<Rightarrow> Inl e
      | Inr line \<Rightarrow> show_loop obj_names rest (acc @ line))"

definition show_console_result :: "'f bbox_t list \<Rightarrow> string list \<Rightarrow> access_error + 'f out list" where
  "show_console_result result_vec obj_names = show_loop obj_names result_vec [Endl]"

text \<open>\<open>std::to_string\<close> on a non-negative integer: its decimal digits.\<close>

fun to_string :: "nat \<Rightarrow> string" where
  "to_string n =
     (if n < 10 then [char_of (48 + n)]
      else to_string (n div 10) @ [char_of (48 + n mod 10)])"

text \<open>
  Modelled from the spec: \<open>obj_id_to_color\<close> (from \<open>yolo_v2_class.hpp\<close>), OpenCV's
  \<open>getTextSize\<close> with the two font settings of \<open>draw_boxes\<close>, \<open>std::isnan\<close> and the
  fixed two-digit formatting of the three coordinates are outside the sources (the
  spec names the inference engine and the image library as external collaborators);
  they are parameters of the model. An \<open>int\<close> is kept as its 32-bit pattern.
\<close>

record ('f, 'c) externals =
  obj_id_to_color :: "32 word \<Rightarrow> 'c"
  text_width :: "string \<Rightarrow> 32 word"
  text_width_3d :: "string \<Rightarrow> 32 word"
  isnan :: "'f \<Rightarrow> bool"
  format_3d :: "'f \<Rightarrow> 'f \<Rightarrow> 'f \<Rightarrow> string"

text \<open>\<open>std::max\<close> and \<open>std::min\<close> on \<open>int\<close>.\<close>

definition smax :: "32 word \<Rightarrow> 32 word \<Rightarrow> 32 word" where
  "smax a b = (if a <s b then b else a)"

definition smin :: "32 word \<Rightarrow> 32 word \<Rightarrow> 32 word" where
  "smin a b = (if b <s a then b else a)"

text \<open>
  What \<open>draw_boxes\<close> does to the image, call by call: the box of a detection, the
  filled background of its label (two corners), the label, the 3D coordinates and the
  frame rates. Font, scale, thickness and text colour are constants of the source.
\<close>

datatype 'c draw =
    Rectangle "32 word" "32 word" "32 word" "32 word" 'c
  | FilledRectangle "32 word" "32 word" "32 word" "32 word" 'c
  | PutName string "32 word" "32 word"
  | PutCoords string "32 word" "32 word"
  | PutFps string

text \<open>One iteration of the loop of \<open>draw_boxes\<close>; \<open>cols\<close> and \<open>rows\<close> are those of \<open>mat_img\<close>.\<close>

definition draw_one ::
  "('f, 'c) externals \<Rightarrow> 32 word \<Rightarrow> 32 word \<Rightarrow> string list \<Rightarrow> 'f bbox_t
   \<Rightarrow> access_error + 'c draw list" where
  "draw_one E cols rows obj_names i =
     (let color = obj_id_to_color E (obj_id i);
          box = [Rectangle (x i) (y i) (w i) (h i) color]
      in if length obj_names > unat (obj_id i) then
           (case vec_at obj_names (unat (obj_id i)) of
              Inl e \<Rightarrow> Inl e
            | Inr name \<Rightarrow>
                (let obj_name = (if track_id i > 0
                                 then name @ '' - '' @ to_string (unat (track_id i))
                                 else name);
                     tw = text_width E obj_name;
                     mw0 = (if tw > w i + 2 then tw else w i + 2);
                     mw1 = smax mw0 (w i + 2);
                     coords_3d = (if \<not> isnan E (z_3d i)
                                  then format_3d E (x_3d i) (y_3d i) (z_3d i) else []);
                     mw = (if \<not> isnan E (z_3d i) then
                             (let tw3 = text_width_3d E coords_3d;
                                  mw3 = (if tw3 > w i + 2 then tw3 else w i + 2)
                              in if mw1 <s mw3 then mw3 else mw1)
                           else mw1)
                 in Inr (box @
                         [FilledRectangle (smax (x i - 1) 0) (smax (y i - 35) 0)
                            (smin (x i + mw) (cols - 1)) (smin (y i) (rows - 1)) color,
                          PutName obj_name (x i) (y i - 16)] @
                         (if coords_3d \<noteq> [] then [PutCoords coords_3d (x i) (y i - 1)]
                          else []))))
         else Inr box)"

fun draw_loop ::
  "('f, 'c) externals \<Rightarrow> 32 word \<Rightarrow> 32 word \<Rightarrow> string list \<Rightarrow> 'f bbox_t list
   \<Rightarrow> 'c draw list \<Rightarrow> access_error + 'c draw list" where
  "draw_loop E cols rows obj_names [] acc = Inr acc"
| "draw_loop E cols rows obj_names (i # rest) acc =
     (case draw_one E cols rows obj_names i of
        Inl e \<Rightarrow> Inl e
      | Inr cmds \<Rightarrow> draw_loop E cols rows obj_names rest (acc @ cmds))"

definition draw_boxes ::
  "('f, 'c) externals \<Rightarrow> 32 word \<Rightarrow> 32 word \<Rightarrow> 'f bbox_t list \<Rightarrow> string list
   \<Rightarrow> int \<Rightarrow> int \<Rightarrow> access_error + 'c draw list" where
  "draw_boxes E cols rows result_vec obj_names current_det_fps current_cap_fps =
     (case draw_loop E cols rows obj_names result_vec [] of
        Inl e \<Rightarrow> Inl e
      | Inr cmds \<Rightarrow>
          Inr (cmds @
               (if current_det_fps \<ge> 0 \<and> current_cap_fps \<ge> 0
                then [PutFps (''FPS detection: '' @ to_string (nat current_det_fps) @
                              ''   FPS capture: '' @ to_string (nat current_cap_fps))]
                else [])))"

section \<open>Invariants\<close>

text \<open>
  What holds of every state that one producer and one consumer reach on a synchronous
  channel: the producer is at its exchange only while the slot is empty, every value
  passed to \<open>send\<close> is returned, stored or still in the producer's hands, in that
  order, and nothing has been destroyed.
\<close>

definition sync_inv :: "'a sys \<Rightarrow> bool" where
  "sync_inv s \<longleftrightarrow>
     sync (chan s)
     \<and> (\<forall>v. prod s = SendXchg v \<longrightarrow> a_ptr (chan s) = None)
     \<and> received s @ in_flight s = sent s
     \<and> dropped s = []"


section \<open>Properties of the channel\<close>


text \<open>
  C10: \<open>is_object_present\<close> never modifies the channel: the pending value (or its
  absence) and the \<open>sync\<close> flag are the same before and after the call.
\<close>

theorem is_object_present_frame:
  "snd (is_object_present c) = c
   \<and> a_ptr (snd (is_object_present c)) = a_ptr c
   \<and> sync (snd (is_object_present c)) = sync c"
  by (simp add: is_object_present_def)

subsection \<open>Synchronous mode\<close>

lemma sync_inv_init: "sync_inv (init True)"
  by (simp add: sync_inv_def init_def new_chan_def in_flight_def)

lemma sync_inv_step:
  assumes "sync_inv s" and "step e s = Some s'"
  shows "sync_inv s'"
proof (cases e)
  case (SendCall v)
  with assms show ?thesis
    by (auto simp: sync_inv_def send_call_def in_flight_def split: if_splits)
next
  case SendStep
  with assms show ?thesis
    by (cases "prod s")
       (auto simp: sync_inv_def send_step_def in_flight_def load_def exchange_def
             split: if_splits)
next
  case RecvCall
  with assms show ?thesis
    by (auto simp: sync_inv_def recv_call_def in_flight_def split: if_splits)
next
  case RecvStep
  with assms show ?thesis
    by (cases "cons s"; cases "a_ptr (chan s)")
       (auto simp: sync_inv_def recv_step_def in_flight_def load_def exchange_def
             split: if_splits)
next
  case IsPresent
  with assms show ?thesis
    by (auto simp: sync_inv_def is_object_present_def in_flight_def)
qed

lemma sync_inv_run: "sync_inv s \<Longrightarrow> run es s = Some s' \<Longrightarrow> sync_inv s'"
proof (induction es arbitrary: s)
  case Nil
  then show ?case by simp
next
  case (Cons e es)
  then show ?case
    by (auto split: option.splits dest: sync_inv_step)
qed



subsection \<open>Accounting in either mode\<close>

lemma step_account:
  assumes "step e s = Some s'"
    and "mset (sent s) = mset (received s) + mset (dropped s) + mset (in_flight s)"
  shows "mset (sent s') = mset (received s') + mset (dropped s') + mset (in_flight s')"
proof (cases e)
  case (SendCall v)
  with assms show ?thesis
    by (auto simp: send_call_def in_flight_def split: if_splits)
next
  case SendStep
  with assms show ?thesis
    by (cases "prod s"; cases "a_ptr (chan s)")
       (auto simp: send_step_def in_flight_def load_def exchange_def split: if_splits)
next
  case RecvCall
  with assms show ?thesis
    by (auto simp: recv_call_def in_flight_def split: if_splits)
next
  case RecvStep
  with assms show ?thesis
    by (cases "cons s"; cases "a_ptr (chan s)")
       (auto simp: recv_step_def in_flight_def load_def exchange_def split: if_splits)
next
  case IsPresent
  with assms show ?thesis
    by (auto simp: is_object_present_def in_flight_def)
qed

lemma run_account:
  "run es s = Some s' \<Longrightarrow>
   mset (sent s) = mset (received s) + mset (dropped s) + mset (in_flight s) \<Longrightarrow>
   mset (sent s') = mset (received s') + mset (dropped s') + mset (in_flight s')"
proof (induction es arbitrary: s)
  case Nil
  then show ?case by simp
next
  case (Cons e es)
  from Cons.prems(1) obtain t where t: "step e s = Some t" and r: "run es t = Some s'"
    by (auto split: option.splits)
  from step_account [OF t Cons.prems(2)] Cons.IH [OF r] show ?case by simp
qed

text \<open>
  C3: in every state that an interleaving of the producer's sends, the consumer's
  receives and calls of \<open>is_object_present\<close> reaches, the slot holds at most one
  value, and every value passed to \<open>send\<close> is exactly one of returned, destroyed,
  stored or still with the producer. In synchronous mode the producer polls without
  effect while the slot is occupied, reaches its exchange only with the slot empty,
  and no value is ever destroyed.
\<close>

theorem slot_holds_at_most_one:
  assumes "run es (init b) = Some s"
  shows "length (opt_list (a_ptr (chan s))) \<le> 1
         \<and> mset (sent s) = mset (received s) + mset (dropped s)
                            + mset (opt_list (a_ptr (chan s))) + mset (pending (prod s))
         \<and> (b \<longrightarrow> dropped s = []
                \<and> (\<forall>v. prod s = SendXchg v \<longrightarrow> a_ptr (chan s) = None)
                \<and> (\<forall>v. prod s = SendWait v \<and> a_ptr (chan s) \<noteq> None
                        \<longrightarrow> step SendStep s = Some s))"
proof -
  have one: "length (opt_list (a_ptr (chan s))) \<le> 1"
    by (cases "a_ptr (chan s)") simp_all
  have "mset (sent (init b)) = mset (received (init b)) + mset (dropped (init b))
          + mset (in_flight (init b) :: 'a list)"
    by (simp add: init_def new_chan_def in_flight_def)
  from run_account [OF assms this]
  have acct: "mset (sent s) = mset (received s) + mset (dropped s)
                + mset (opt_list (a_ptr (chan s))) + mset (pending (prod s))"
    by (simp add: in_flight_def)
  have sync_part: "dropped s = []
                \<and> (\<forall>v. prod s = SendXchg v \<longrightarrow> a_ptr (chan s) = None)
                \<and> (\<forall>v. prod s = SendWait v \<and> a_ptr (chan s) \<noteq> None
                        \<longrightarrow> step SendStep s = Some s)" if b
  proof -
    from that assms have "run es (init True) = Some s" by simp
    from sync_inv_run [OF sync_inv_init this] show ?thesis
      by (auto simp: sync_inv_def send_step_def load_def)
  qed
  from one acct sync_part show ?thesis by blast
qed

theorem slot_holds_at_most_one_witness:
  "run [SendCall (1::nat), SendStep, SendStep, SendCall 2, SendStep, IsPresent] (init True)
     = Some \<lparr>chan = \<lparr>sync = True, a_ptr = Some 1\<rparr>, prod = SendWait 2, cons = RecvIdle,
             sent = [1, 2], received = [], dropped = []\<rparr>
   \<and> step SendStep \<lparr>chan = \<lparr>sync = True, a_ptr = Some (1::nat)\<rparr>, prod = SendWait 2,
                     cons = RecvIdle, sent = [1, 2], received = [], dropped = []\<rparr>
     = Some \<lparr>chan = \<lparr>sync = True, a_ptr = Some 1\<rparr>, prod = SendWait 2, cons = RecvIdle,
             sent = [1, 2], received = [], dropped = []\<rparr>"
proof -
  have r: "run [SendCall (1::nat), SendStep, SendStep, SendCall 2, SendStep, IsPresent]
             (init True)
           = Some \<lparr>chan = \<lparr>sync = True, a_ptr = Some 1\<rparr>, prod = SendWait 2,
                   cons = RecvIdle, sent = [1, 2], received = [], dropped = []\<rparr>"
    by (simp add: init_def new_chan_def send_call_def send_step_def load_def exchange_def
          is_object_present_def)
  from slot_holds_at_most_one [OF r] r show ?thesis by simp
qed

subsection \<open>Overwrite mode\<close>








subsection \<open>The operations one by one\<close>



text \<open>
  C5: \<open>is_object_present\<close> answers whether a value is stored; it answers false on a
  channel just constructed, and false in the state that the returning step of a
  \<open>receive()\<close> leaves.
\<close>

theorem is_present_reports_slot:
  "fst (is_object_present (c :: 'a chan)) = (a_ptr c \<noteq> None)
   \<and> \<not> fst (is_object_present (new_chan b :: 'a chan))
   \<and> \<not> fst (is_object_present (chan (init b :: 'a sys)))
   \<and> (cons s \<noteq> RecvIdle \<and> step RecvStep (s :: 'a sys) = Some s' \<and> cons s' = RecvIdle
        \<longrightarrow> \<not> fst (is_object_present (chan s')))"
  by (cases "cons s"; cases "a_ptr (chan s)")
     (auto simp add: is_object_present_def new_chan_def init_def recv_step_def load_def
        exchange_def)

theorem is_present_reports_slot_witness:
  "cons ((init True :: nat sys)\<lparr>chan := \<lparr>sync = True, a_ptr = Some 7\<rparr>, cons := RecvXchg\<rparr>)
     \<noteq> RecvIdle
   \<and> step RecvStep
        ((init True :: nat sys)\<lparr>chan := \<lparr>sync = True, a_ptr = Some 7\<rparr>, cons := RecvXchg\<rparr>)
       = Some \<lparr>chan = \<lparr>sync = True, a_ptr = None\<rparr>, prod = SendIdle, cons = RecvIdle,
               sent = [], received = [7], dropped = []\<rparr>
   \<and> fst (is_object_present \<lparr>sync = True, a_ptr = Some (7::nat)\<rparr>)
   \<and> \<not> fst (is_object_present (new_chan True :: nat chan))
   \<and> \<not> fst (is_object_present \<lparr>sync = True, a_ptr = (None :: nat option)\<rparr>)"
proof -
  have r: "step RecvStep
        ((init True :: nat sys)\<lparr>chan := \<lparr>sync = True, a_ptr = Some 7\<rparr>, cons := RecvXchg\<rparr>)
       = Some \<lparr>chan = \<lparr>sync = True, a_ptr = None\<rparr>, prod = SendIdle, cons = RecvIdle,
               sent = [], received = [7], dropped = []\<rparr>"
    by (simp add: init_def new_chan_def recv_step_def exchange_def)
  from r is_present_reports_slot [of "\<lparr>sync = True, a_ptr = Some (7::nat)\<rparr>" True
      "(init True :: nat sys)\<lparr>chan := \<lparr>sync = True, a_ptr = Some 7\<rparr>, cons := RecvXchg\<rparr>"
      "\<lparr>chan = \<lparr>sync = True, a_ptr = None\<rparr>, prod = SendIdle, cons = RecvIdle,
               sent = [], received = [7], dropped = []\<rparr>"]
  show ?thesis by (simp add: new_chan_def init_def)
qed

lemma wait_blocked:
  assumes "prod s = SendWait v" and "a_ptr (chan s) \<noteq> None"
  shows "run (replicate n SendStep) s = Some s"
  using assms by (induction n) (simp_all add: send_step_def load_def)

text \<open>
  C6, as the code has it: a call of \<open>send(v)\<close> by the idle producer fails exactly
  when the allocation or the copy assignment at its start throws, and then it leaves
  by that exception with the channel unchanged. When both succeed the call has
  exactly three courses, none of them an error: in overwrite mode it stores \<open>v\<close> with
  its one exchange; in synchronous mode on an empty slot it stores \<open>v\<close> after one load
  and one exchange; in synchronous mode on an occupied slot it keeps polling,
  unchanged, for as long as nothing empties the slot, and stores \<open>v\<close> within two steps
  once the slot is empty.
\<close>

theorem send_throws_completes_or_blocks:
  assumes "prod s = SendIdle"
  shows "send_begin NewThrows v s = Threw BadAlloc (chan s)
     \<and> send_begin AssignThrows v s = Threw CopyFailed (chan s)
     \<and> ((\<exists>e c. send_begin ho v s = Threw e c) \<longleftrightarrow> ho \<noteq> HeapOk)
     \<and> send_begin HeapOk v s = Entered (send_call v s)
     \<and> step (SendCall v) s = Some (send_call v s)
     \<and> (\<not> sync (chan s) \<longrightarrow>
          run [SendCall v, SendStep] s
            = Some (s\<lparr>chan := (chan s)\<lparr>a_ptr := Some v\<rparr>, prod := SendIdle,
                      sent := sent s @ [v],
                      dropped := dropped s @ opt_list (a_ptr (chan s))\<rparr>))
     \<and> (sync (chan s) \<and> a_ptr (chan s) = None \<longrightarrow>
          run [SendCall v, SendStep, SendStep] s
            = Some (s\<lparr>chan := (chan s)\<lparr>a_ptr := Some v\<rparr>, prod := SendIdle,
                      sent := sent s @ [v]\<rparr>))
     \<and> (sync (chan s) \<and> a_ptr (chan s) \<noteq> None \<longrightarrow>
          (\<forall>n. run (SendCall v # replicate n SendStep) s
                 = Some (s\<lparr>prod := SendWait v, sent := sent s @ [v]\<rparr>))
          \<and> run [SendStep, SendStep]
                (s\<lparr>chan := (chan s)\<lparr>a_ptr := None\<rparr>, prod := SendWait v,
                   sent := sent s @ [v]\<rparr>)
              = Some (s\<lparr>chan := (chan s)\<lparr>a_ptr := Some v\<rparr>, prod := SendIdle,
                        sent := sent s @ [v]\<rparr>))"
proof -
  have t: "send_begin NewThrows v s = Threw BadAlloc (chan s)"
    "send_begin AssignThrows v s = Threw CopyFailed (chan s)"
    "send_begin HeapOk v s = Entered (send_call v s)"
    by (simp_all add: send_begin_def)
  have u: "(\<exists>e c. send_begin ho v s = Threw e c) \<longleftrightarrow> ho \<noteq> HeapOk"
    by (cases ho) (simp_all add: send_begin_def)
  have a: "step (SendCall v) s = Some (send_call v s)" using assms by simp
  have b: "run [SendCall v, SendStep] s
            = Some (s\<lparr>chan := (chan s)\<lparr>a_ptr := Some v\<rparr>, prod := SendIdle,
                      sent := sent s @ [v],
                      dropped := dropped s @ opt_list (a_ptr (chan s))\<rparr>)"
    if "\<not> sync (chan s)"
    using assms that by (simp add: send_call_def send_step_def exchange_def)
  have c: "run [SendCall v, SendStep, SendStep] s
            = Some (s\<lparr>chan := (chan s)\<lparr>a_ptr := Some v\<rparr>, prod := SendIdle,
                      sent := sent s @ [v]\<rparr>)"
    if "sync (chan s)" "a_ptr (chan s) = None"
    using assms that by (simp add: send_call_def send_step_def exchange_def load_def)
  have d: "run (SendCall v # replicate n SendStep) s
                 = Some (s\<lparr>prod := SendWait v, sent := sent s @ [v]\<rparr>)"
    if "sync (chan s)" "a_ptr (chan s) \<noteq> None" for n
  proof -
    let ?t = "s\<lparr>prod := SendWait v, sent := sent s @ [v]\<rparr>"
    have "step (SendCall v) s = Some ?t" using assms that by (simp add: send_call_def)
    moreover have "run (replicate n SendStep) ?t = Some ?t"
      using that by (intro wait_blocked [of _ v]) simp_all
    ultimately show ?thesis by simp
  qed
  have e: "run [SendStep, SendStep]
                (s\<lparr>chan := (chan s)\<lparr>a_ptr := None\<rparr>, prod := SendWait v,
                   sent := sent s @ [v]\<rparr>)
              = Some (s\<lparr>chan := (chan s)\<lparr>a_ptr := Some v\<rparr>, prod := SendIdle,
                        sent := sent s @ [v]\<rparr>)"
    by (simp add: send_step_def exchange_def load_def)
  from t u a b c d e show ?thesis by blast
qed

theorem send_throws_completes_or_blocks_witness:
  "prod (init False :: nat sys) = SendIdle
   \<and> send_begin AssignThrows 5 (init False :: nat sys)
       = Threw CopyFailed \<lparr>sync = False, a_ptr = None\<rparr>
   \<and> send_begin HeapOk 5 (init False :: nat sys)
       = Entered \<lparr>chan = \<lparr>sync = False, a_ptr = None\<rparr>, prod = SendXchg 5, cons = RecvIdle,
                  sent = [5], received = [], dropped = []\<rparr>
   \<and> run [SendCall 5, SendStep] (init False :: nat sys)
     = Some \<lparr>chan = \<lparr>sync = False, a_ptr = Some 5\<rparr>, prod = SendIdle, cons = RecvIdle,
             sent = [5], received = [], dropped = []\<rparr>
   \<and> run [SendCall 5, SendStep, SendStep] (init True :: nat sys)
     = Some \<lparr>chan = \<lparr>sync = True, a_ptr = Some 5\<rparr>, prod = SendIdle, cons = RecvIdle,
             sent = [5], received = [], dropped = []\<rparr>
   \<and> run (SendCall 5 # replicate 3 SendStep)
        ((init True :: nat sys)\<lparr>chan := \<lparr>sync = True, a_ptr = Some 1\<rparr>\<rparr>)
     = Some \<lparr>chan = \<lparr>sync = True, a_ptr = Some 1\<rparr>, prod = SendWait 5, cons = RecvIdle,
             sent = [5], received = [], dropped = []\<rparr>"
proof -
  have i: "prod (init False :: nat sys) = SendIdle" "prod (init True :: nat sys) = SendIdle"
    "prod ((init True :: nat sys)\<lparr>chan := \<lparr>sync = True, a_ptr = Some 1\<rparr>\<rparr>) = SendIdle"
    by (simp_all add: init_def)
  from send_throws_completes_or_blocks [OF i(1), of 5 HeapOk]
    send_throws_completes_or_blocks [OF i(2), of 5 HeapOk]
    send_throws_completes_or_blocks [OF i(3), of 5 HeapOk]
  show ?thesis by (simp add: init_def new_chan_def send_call_def)
qed

text \<open>
  C6 as the spec words it, that \<open>send\<close> cannot fail for any value and any channel
  state, does not hold of the code: on a channel just constructed in overwrite mode,
  \<open>send(5)\<close> whose allocation throws \<open>std::bad_alloc\<close> leaves by that exception
  and stores nothing.
\<close>

theorem send_can_throw:
  "send_begin NewThrows (5::nat) (init False) = Threw BadAlloc \<lparr>sync = False, a_ptr = None\<rparr>"
  by (simp add: send_begin_def init_def new_chan_def)

subsection \<open>A receive that waits for a send\<close>






section \<open>Properties of \<open>objects_names_from_file\<close>\<close>

lemma read_lines_Nil: "read_lines [] acc = acc"
  by (subst read_lines.simps) (simp add: getline_def)

lemma read_lines_step:
  "inp \<noteq> [] \<Longrightarrow>
   read_lines inp acc =
     read_lines (drop 1 (dropWhile (\<lambda>c. c \<noteq> newline) inp))
       (acc @ [takeWhile (\<lambda>c. c \<noteq> newline) inp])"
  by (subst read_lines.simps) (simp add: getline_def)

lemma split_line:
  assumes "inp \<noteq> []"
  defines "rest \<equiv> drop 1 (dropWhile (\<lambda>c. c \<noteq> newline) inp)"
  shows "takeWhile (\<lambda>c. c \<noteq> newline) inp @ [newline]
           @ (if rest = [] \<or> last rest = newline then rest else rest @ [newline])
         = (if last inp = newline then inp else inp @ [newline])"
    and "count_list inp newline + (if last inp \<noteq> newline then 1 else 0)
         = Suc (count_list rest newline
                + (if rest \<noteq> [] \<and> last rest \<noteq> newline then 1 else 0))"
proof -
  let ?P = "\<lambda>c. c \<noteq> newline"
  have tw: "count_list (takeWhile ?P inp) newline = 0"
    by (rule count_notin) (auto dest: set_takeWhileD)
  have both: "(takeWhile ?P inp @ [newline]
           @ (if rest = [] \<or> last rest = newline then rest else rest @ [newline])
         = (if last inp = newline then inp else inp @ [newline]))
       \<and> (count_list inp newline + (if last inp \<noteq> newline then 1 else 0)
         = Suc (count_list rest newline
                + (if rest \<noteq> [] \<and> last rest \<noteq> newline then 1 else 0)))"
  proof (cases "dropWhile ?P inp")
    case Nil
    then have all: "\<forall>c \<in> set inp. c \<noteq> newline" by (simp add: dropWhile_eq_Nil_conv)
    then have t: "takeWhile ?P inp = inp" by (simp add: takeWhile_eq_all_conv)
    from all assms(1) have l: "last inp \<noteq> newline" using last_in_set by blast
    from all have c: "count_list inp newline = 0" by (intro count_notin) auto
    have r: "rest = []" unfolding rest_def Nil by simp
    show ?thesis by (simp add: r t l c)
  next
    case (Cons c cs)
    then have "c = newline" using hd_dropWhile [of ?P inp] by auto
    with Cons have d: "dropWhile ?P inp = newline # cs" by simp
    have inp: "inp = takeWhile ?P inp @ newline # cs"
      using takeWhile_dropWhile_id [of ?P inp] d by simp
    have r: "rest = cs" by (simp add: rest_def d)
    have l: "last inp = (if cs = [] then newline else last cs)"
      by (subst inp) simp
    have c: "count_list inp newline = Suc (count_list cs newline)"
      by (subst inp) (simp add: tw)
    show ?thesis
      using r l c inp by (auto simp: )
  qed
  from both show "takeWhile ?P inp @ [newline]
           @ (if rest = [] \<or> last rest = newline then rest else rest @ [newline])
         = (if last inp = newline then inp else inp @ [newline])" by blast
  from both show "count_list inp newline + (if last inp \<noteq> newline then 1 else 0)
         = Suc (count_list rest newline
                + (if rest \<noteq> [] \<and> last rest \<noteq> newline then 1 else 0))" by blast
qed

lemma rest_shorter:
  assumes "inp \<noteq> []"
  shows "length (drop 1 (dropWhile (\<lambda>c. c \<noteq> newline) inp)) < length inp"
proof -
  define d where "d = dropWhile (\<lambda>c. c \<noteq> newline) inp"
  have le: "length d \<le> length inp"
    unfolding d_def by (rule length_dropWhile_le)
  have "length (drop 1 d) < length inp"
  proof (cases "d = []")
    case True
    with assms show ?thesis by simp
  next
    case False
    then have pos: "0 < length d" by simp
    have "length (drop 1 d) = length d - 1" by simp
    with le pos show ?thesis by arith
  qed
  then show ?thesis by (simp only: d_def)
qed

lemma read_lines_acc: "read_lines inp acc = acc @ read_lines inp []"
proof (induction inp arbitrary: acc rule: length_induct)
  case (1 inp)
  show ?case
  proof (cases "inp = []")
    case True
    then show ?thesis by (simp add: read_lines_Nil)
  next
    case False
    let ?rest = "drop 1 (dropWhile (\<lambda>c. c \<noteq> newline) inp)"
    let ?line = "takeWhile (\<lambda>c. c \<noteq> newline) inp"
    from False have lt: "length ?rest < length inp" by (rule rest_shorter)
    from 1 lt have ih: "\<And>acc. read_lines ?rest acc = acc @ read_lines ?rest []" by blast
    have "read_lines inp acc = read_lines ?rest (acc @ [?line])"
      using False by (rule read_lines_step)
    also have "\<dots> = (acc @ [?line]) @ read_lines ?rest []" by (rule ih)
    also have "\<dots> = acc @ read_lines ?rest [?line]" using ih [of "[?line]"] by simp
    also have "read_lines ?rest [?line] = read_lines inp []"
      using read_lines_step [OF False, of "[]"] by simp
    finally show ?thesis .
  qed
qed

lemma read_lines_Cons:
  "inp \<noteq> [] \<Longrightarrow>
   read_lines inp [] =
     takeWhile (\<lambda>c. c \<noteq> newline) inp
       # read_lines (drop 1 (dropWhile (\<lambda>c. c \<noteq> newline) inp)) []"
  using read_lines_step [of inp "[]"] read_lines_acc [of _ "[takeWhile (\<lambda>c. c \<noteq> newline) inp]"]
  by simp

lemma read_lines_no_newline: "l \<in> set (read_lines inp []) \<Longrightarrow> newline \<notin> set l"
proof (induction inp arbitrary: l rule: length_induct)
  case (1 inp)
  show ?case
  proof (cases "inp = []")
    case True
    with 1 show ?thesis by (simp add: read_lines_Nil)
  next
    case False
    from 1(2) read_lines_Cons [OF False]
    consider "l = takeWhile (\<lambda>c. c \<noteq> newline) inp"
      | "l \<in> set (read_lines (drop 1 (dropWhile (\<lambda>c. c \<noteq> newline) inp)) [])"
      by auto
    then show ?thesis
    proof cases
      case 1
      then show ?thesis by (auto dest: set_takeWhileD)
    next
      case 2
      with "1.IH" rest_shorter [OF False] show ?thesis by blast
    qed
  qed
qed

lemma read_lines_concat:
  "concat (map (\<lambda>l. l @ [newline]) (read_lines inp []))
     = (if inp = [] \<or> last inp = newline then inp else inp @ [newline])"
proof (induction inp rule: length_induct)
  case (1 inp)
  show ?case
  proof (cases "inp = []")
    case True
    then show ?thesis by (simp add: read_lines_Nil)
  next
    case False
    let ?rest = "drop 1 (dropWhile (\<lambda>c. c \<noteq> newline) inp)"
    from 1 rest_shorter [OF False]
    have ih: "concat (map (\<lambda>l. l @ [newline]) (read_lines ?rest []))
               = (if ?rest = [] \<or> last ?rest = newline then ?rest else ?rest @ [newline])"
      by blast
    show ?thesis
      using split_line(1) [OF False] False
      by (simp only: read_lines_Cons [OF False] list.map concat.simps ih append_assoc if_False
             simp_thms)
  qed
qed

lemma read_lines_length:
  "length (read_lines inp [])
     = count_list inp newline + (if inp \<noteq> [] \<and> last inp \<noteq> newline then 1 else 0)"
proof (induction inp rule: length_induct)
  case (1 inp)
  show ?case
  proof (cases "inp = []")
    case True
    then show ?thesis by (simp add: read_lines_Nil)
  next
    case False
    let ?rest = "drop 1 (dropWhile (\<lambda>c. c \<noteq> newline) inp)"
    from 1 rest_shorter [OF False]
    have ih: "length (read_lines ?rest [])
               = count_list ?rest newline
                 + (if ?rest \<noteq> [] \<and> last ?rest \<noteq> newline then 1 else 0)"
      by blast
    show ?thesis
      using split_line(2) [OF False] False
      by (simp only: read_lines_Cons [OF False] list.size ih simp_thms if_True)
  qed
qed

text \<open>
  C8: \<open>objects_names_from_file\<close> returns the empty vector when the file cannot be
  opened. Otherwise its entries are the lines of the file in file order: no entry
  contains a newline, the entries each followed by a newline spell the contents (with
  the final newline supplied when the file lacks it), and there is one entry per newline
  plus one for an unterminated last line.
\<close>

theorem objects_names_from_file_lines:
  "(fs filename = None \<longrightarrow> fst (objects_names_from_file fs filename) = [])
   \<and> (fs filename = Some contents \<longrightarrow>
        fst (objects_names_from_file fs filename) = read_lines contents []
        \<and> (\<forall>l \<in> set (fst (objects_names_from_file fs filename)). newline \<notin> set l)
        \<and> concat (map (\<lambda>l. l @ [newline]) (fst (objects_names_from_file fs filename)))
            = (if contents = [] \<or> last contents = newline then contents
               else contents @ [newline])
        \<and> length (fst (objects_names_from_file fs filename))
            = count_list contents newline
              + (if contents \<noteq> [] \<and> last contents \<noteq> newline then 1 else 0))"
  by (auto simp: objects_names_from_file_def read_lines_concat read_lines_length
           dest: read_lines_no_newline)

theorem objects_names_from_file_lines_witness:
  "Map.empty ''coco.names'' = None
   \<and> fst (objects_names_from_file Map.empty ''coco.names'') = []
   \<and> [''coco.names'' \<mapsto> ''person'' @ [newline] @ ''car''] ''coco.names''
       = Some (''person'' @ [newline] @ ''car'')
   \<and> fst (objects_names_from_file
            [''coco.names'' \<mapsto> ''person'' @ [newline] @ ''car''] ''coco.names'')
       = [''person'', ''car'']"
  using objects_names_from_file_lines [of Map.empty "''coco.names''" "[]"]
    objects_names_from_file_lines
      [of "[''coco.names'' \<mapsto> ''person'' @ [newline] @ ''car'']" "''coco.names''"
          "''person'' @ [newline] @ ''car''"]
  by (simp add: read_lines_Cons read_lines_Nil newline_def)


section \<open>Properties of \<open>show_console_result\<close> and \<open>draw_boxes\<close>\<close>

lemma show_one_ok:
  "show_one obj_names i =
     Inr ((if unat (obj_id i) < length obj_names
           then [Str (obj_names ! unat (obj_id i)), Str '' - ''] else []) @
          [Str ''obj_id = '', UInt (obj_id i), Str '',  x = '', UInt (x i),
           Str '', y = '', UInt (y i), Str '', w = '', UInt (w i),
           Str '', h = '', UInt (h i), SetPrecision 3, Str '', prob = '',
           Flt (prob i), Endl])"
  by (simp add: show_one_def vec_at_def)

lemma show_loop_ok: "\<exists>out. show_loop obj_names result_vec acc = Inr out"
  by (induction result_vec arbitrary: acc) (simp_all add: show_one_ok)

lemma draw_one_ok:
  "\<exists>cmds. draw_one E cols rows obj_names i =
     Inr (Rectangle (x i) (y i) (w i) (h i) (obj_id_to_color E (obj_id i)) # cmds)
     \<and> (length obj_names \<le> unat (obj_id i) \<longrightarrow> cmds = [])
     \<and> (unat (obj_id i) < length obj_names \<longrightarrow>
          (\<exists>a b c d suffix rest. cmds =
             FilledRectangle a b c d (obj_id_to_color E (obj_id i))
             # PutName (obj_names ! unat (obj_id i) @ suffix) (x i) (y i - 16) # rest))"
  by (simp add: draw_one_def vec_at_def Let_def)

lemma draw_loop_ok: "\<exists>cmds. draw_loop E cols rows obj_names result_vec acc = Inr cmds"
proof (induction result_vec arbitrary: acc)
  case Nil
  then show ?case by simp
next
  case (Cons i rest)
  from draw_one_ok [of E cols rows obj_names i] obtain cmds where
    "draw_one E cols rows obj_names i
       = Inr (Rectangle (x i) (y i) (w i) (h i) (obj_id_to_color E (obj_id i)) # cmds)"
    by blast
  with Cons show ?case by simp
qed

text \<open>
  C9: for every result vector and every list of class names, \<open>show_console_result\<close>
  and \<open>draw_boxes\<close> finish without an access outside \<open>obj_names\<close>. A detection whose
  \<open>obj_id\<close> is not below \<open>obj_names.size()\<close> is printed with its fields only and
  drawn as its box only; one whose \<open>obj_id\<close> is in range is printed with the name at
  that index first and drawn with a label that starts with that name.
\<close>

theorem names_indexed_in_range:
  "(\<exists>out. show_console_result result_vec obj_names = Inr out)
   \<and> (\<exists>cmds. draw_boxes E cols rows result_vec obj_names current_det_fps current_cap_fps
               = Inr cmds)
   \<and> (length obj_names \<le> unat (obj_id i) \<longrightarrow>
        show_one obj_names i =
          Inr [Str ''obj_id = '', UInt (obj_id i), Str '',  x = '', UInt (x i),
               Str '', y = '', UInt (y i), Str '', w = '', UInt (w i),
               Str '', h = '', UInt (h i), SetPrecision 3, Str '', prob = '',
               Flt (prob i), Endl]
        \<and> draw_one E cols rows obj_names i =
            Inr [Rectangle (x i) (y i) (w i) (h i) (obj_id_to_color E (obj_id i))])
   \<and> (unat (obj_id i) < length obj_names \<longrightarrow>
        (\<exists>rest. show_one obj_names i =
            Inr (Str (obj_names ! unat (obj_id i)) # Str '' - '' # rest))
        \<and> (\<exists>a b c d suffix rest. draw_one E cols rows obj_names i =
            Inr (Rectangle (x i) (y i) (w i) (h i) (obj_id_to_color E (obj_id i))
                 # FilledRectangle a b c d (obj_id_to_color E (obj_id i))
                 # PutName (obj_names ! unat (obj_id i) @ suffix) (x i) (y i - 16)
                 # rest)))"
proof -
  have a: "\<exists>out. show_console_result result_vec obj_names = Inr out"
    by (simp add: show_console_result_def show_loop_ok)
  obtain cmds where "draw_loop E cols rows obj_names result_vec [] = Inr cmds"
    using draw_loop_ok by blast
  then have b: "\<exists>cmds. draw_boxes E cols rows result_vec obj_names current_det_fps
                  current_cap_fps = Inr cmds"
    by (simp add: draw_boxes_def)
  from draw_one_ok [of E cols rows obj_names i] obtain cmds where d:
    "draw_one E cols rows obj_names i =
       Inr (Rectangle (x i) (y i) (w i) (h i) (obj_id_to_color E (obj_id i)) # cmds)"
    "length obj_names \<le> unat (obj_id i) \<longrightarrow> cmds = []"
    "unat (obj_id i) < length obj_names \<longrightarrow>
          (\<exists>a b c d suffix rest. cmds =
             FilledRectangle a b c d (obj_id_to_color E (obj_id i))
             # PutName (obj_names ! unat (obj_id i) @ suffix) (x i) (y i - 16) # rest)"
    by blast
  have c: "show_one obj_names i =
          Inr [Str ''obj_id = '', UInt (obj_id i), Str '',  x = '', UInt (x i),
               Str '', y = '', UInt (y i), Str '', w = '', UInt (w i),
               Str '', h = '', UInt (h i), SetPrecision 3, Str '', prob = '',
               Flt (prob i), Endl]
        \<and> draw_one E cols rows obj_names i =
            Inr [Rectangle (x i) (y i) (w i) (h i) (obj_id_to_color E (obj_id i))]"
    if "length obj_names \<le> unat (obj_id i)"
    using that d(1,2) by (simp add: show_one_ok)
  have e: "(\<exists>rest. show_one obj_names i =
            Inr (Str (obj_names ! unat (obj_id i)) # Str '' - '' # rest))
        \<and> (\<exists>a b c d suffix rest. draw_one E cols rows obj_names i =
            Inr (Rectangle (x i) (y i) (w i) (h i) (obj_id_to_color E (obj_id i))
                 # FilledRectangle a b c d (obj_id_to_color E (obj_id i))
                 # PutName (obj_names ! unat (obj_id i) @ suffix) (x i) (y i - 16)
                 # rest))"
    if "unat (obj_id i) < length obj_names"
    using that d(1,3) by (simp add: show_one_ok)
  from a b c e show ?thesis by blast
qed

theorem names_indexed_in_range_witness:
  "length [''person'', ''car'']
     \<le> unat (obj_id \<lparr>x = 10, y = 50, w = 20, h = 30, prob = (), obj_id = 5, track_id = 0,
                        x_3d = (), y_3d = (), z_3d = ()\<rparr>)
   \<and> show_console_result
        [\<lparr>x = 10, y = 50, w = 20, h = 30, prob = (), obj_id = 5, track_id = 0,
          x_3d = (), y_3d = (), z_3d = ()\<rparr>] [''person'', ''car'']
      = Inr [Endl, Str ''obj_id = '', UInt 5, Str '',  x = '', UInt 10,
             Str '', y = '', UInt 50, Str '', w = '', UInt 20,
             Str '', h = '', UInt 30, SetPrecision 3, Str '', prob = '', Flt (), Endl]
   \<and> draw_one \<lparr>obj_id_to_color = (\<lambda>k. k), text_width = (\<lambda>t. 100),
                 text_width_3d = (\<lambda>t. 80), isnan = (\<lambda>z. True),
                 format_3d = (\<lambda>a b c. [])\<rparr> 640 480 [''person'', ''car'']
        \<lparr>x = 10, y = 50, w = 20, h = 30, prob = (), obj_id = 5, track_id = 0,
          x_3d = (), y_3d = (), z_3d = ()\<rparr>
      = Inr [Rectangle 10 50 20 30 5]
   \<and> unat (obj_id \<lparr>x = 10, y = 50, w = 20, h = 30, prob = (), obj_id = 1, track_id = 0,
                     x_3d = (), y_3d = (), z_3d = ()\<rparr>) < length [''person'', ''car'']
   \<and> (\<exists>rest. show_one [''person'', ''car'']
          \<lparr>x = 10, y = 50, w = 20, h = 30, prob = (), obj_id = 1, track_id = 0,
            x_3d = (), y_3d = (), z_3d = ()\<rparr>
        = Inr (Str ''car'' # Str '' - '' # rest))"
  using names_indexed_in_range
      [of "[\<lparr>x = 10, y = 50, w = 20, h = 30, prob = (), obj_id = 5, track_id = 0,
             x_3d = (), y_3d = (), z_3d = ()\<rparr>]" "[''person'', ''car'']"
          "\<lparr>obj_id_to_color = (\<lambda>k. k), text_width = (\<lambda>t. 100),
            text_width_3d = (\<lambda>t. 80), isnan = (\<lambda>z. True),
            format_3d = (\<lambda>a b c. [])\<rparr>" 640 480 "-1" "-1"
          "\<lparr>x = 10, y = 50, w = 20, h = 30, prob = (), obj_id = 5, track_id = 0,
            x_3d = (), y_3d = (), z_3d = ()\<rparr>"]
    names_indexed_in_range
      [of "[\<lparr>x = 10, y = 50, w = 20, h = 30, prob = (), obj_id = 1, track_id = 0,
             x_3d = (), y_3d = (), z_3d = ()\<rparr>]" "[''person'', ''car'']"
          "\<lparr>obj_id_to_color = (\<lambda>k. k), text_width = (\<lambda>t. 100),
            text_width_3d = (\<lambda>t. 80), isnan = (\<lambda>z. True),
            format_3d = (\<lambda>a b c. [])\<rparr>" 640 480 "-1" "-1"
          "\<lparr>x = 10, y = 50, w = 20, h = 30, prob = (), obj_id = 1, track_id = 0,
            x_3d = (), y_3d = (), z_3d = ()\<rparr>"]
  by (simp add: show_console_result_def show_one_def vec_at_def)

end
